theory Spec2Isabelle
  imports Main "HOL-Library.Word" "HOL-Library.Product_Lexorder" "HOL-Library.Sublist"
begin

section \<open>Data model\<close>

text \<open>
  Errors the subscriber distinguishes by identity: \<open>context.Canceled\<close>,
  \<open>context.DeadlineExceeded\<close>, \<open>ethereum.NotFound\<close>; every other error value is
  \<open>OtherErr\<close> with an opaque tag.
\<close>

datatype err = Canceled | DeadlineExceeded | NotFound | OtherErr nat

type_synonym u64 = "64 word"

text \<open>
  \<open>types.Log\<close>: \<open>BlockNumber uint64\<close>, \<open>TxIndex uint\<close>, \<open>Index uint\<close> (64 bits on the
  platforms the client runs on); the transaction hash stands for the rest of the payload.
\<close>

record log =
  BlockNumber :: u64
  TxIndex :: u64
  Index :: u64
  TxHash :: nat

text \<open>\<open>types.Header\<close>: \<open>Number *big.Int\<close> is unbounded.\<close>

record header =
  Number :: int
  Hash :: nat

text \<open>\<open>ethereum.FilterQuery\<close>: the block bounds are \<open>*big.Int\<close>, nil when absent.\<close>

record filter_query =
  FromBlock :: "int option"
  ToBlock :: "int option"
  Criteria :: nat

text \<open>\<open>reconnectInterval = 2 * time.Second\<close>, in seconds.\<close>

definition reconnectInterval :: nat where
  "reconnectInterval = 2"

text \<open>
  How a goroutine's loop stands after consuming part of its input: \<open>Waiting\<close> at the top
  of its \<open>for\<close>, \<open>Returned\<close>, or \<open>Starved\<close> when the recorded replies of the remote
  node ran out while it was still asking (the loop has not come back).
\<close>

datatype 's outcome = Waiting 's | Returned 's | Starved 's

fun state_of :: "'s outcome \<Rightarrow> 's" where
  "state_of (Waiting s) = s"
| "state_of (Returned s) = s"
| "state_of (Starved s) = s"

text \<open>What a \<open>select\<close> over the check channel and \<open>ctx.Done()\<close> picks.\<close>

datatype 'a sel = Recv 'a | Done

section \<open>Log subscription: gap detector\<close>

text \<open>The sequence key of a log, ordered lexicographically.\<close>

definition sequenceKey :: "log \<Rightarrow> u64 \<times> u64 \<times> u64" where
  "sequenceKey l = (BlockNumber l, TxIndex l, Index l)"

definition hasSeen :: "log \<Rightarrow> log \<Rightarrow> bool" where
  "hasSeen lastLog commingLog =
     (if BlockNumber lastLog > BlockNumber commingLog then True
      else if BlockNumber lastLog = BlockNumber commingLog then
        (if TxIndex lastLog > TxIndex commingLog then True
         else if TxIndex lastLog = TxIndex commingLog \<and> Index lastLog \<ge> Index commingLog then True
         else False)
      else False)"

text \<open>
  State of the goroutine that reads the check channel: \<open>lastLog\<close>, its private copy of
  \<open>query\<close>, what it has sent on \<open>resultChan\<close> (oldest first), the \<open>FilterLogs\<close> queries
  it has issued, and the seconds it has slept.
\<close>

record log_detector =
  lastLog :: "log option"
  query :: filter_query
  resultChan :: "log list"
  calls :: "filter_query list"
  slept :: nat

type_synonym log_reply = "err + log list"

text \<open>The \<open>for _, l := range vlog\<close> loop: returns the new \<open>lastLog\<close> and what was sent.\<close>

fun deliver_missing :: "log \<Rightarrow> log list \<Rightarrow> log \<times> log list" where
  "deliver_missing lastl [] = (lastl, [])"
| "deliver_missing lastl (l # ls) =
     (if hasSeen lastl l then deliver_missing lastl ls
      else (case deliver_missing l ls of (lastl', out) \<Rightarrow> (lastl', l # out)))"

text \<open>
  The \<open>for start <= end\<close> loop. Each pass takes the next recorded reply of
  \<open>FilterLogs\<close>; \<open>int64(start)\<close> is the signed reading of the word.
\<close>

fun backfill_logs ::
  "log_reply list \<Rightarrow> u64 \<Rightarrow> u64 \<Rightarrow> log \<Rightarrow> log_detector \<Rightarrow> log_detector outcome \<times> log_reply list"
where
  "backfill_logs [] start end lastl s =
     (if start \<le> end then (Starved s, []) else (Waiting s, []))"
| "backfill_logs (r # rs) start end lastl s =
     (if start \<le> end then
        (let q = (query s)\<lparr>FromBlock := Some (sint start)\<rparr>;
             s1 = s\<lparr>query := q, calls := calls s @ [q]\<rparr>
         in case r of
              Inl e \<Rightarrow>
                if e = Canceled \<or> e = DeadlineExceeded then (Returned s1, rs)
                else backfill_logs rs start end lastl (s1\<lparr>slept := slept s1 + reconnectInterval\<rparr>)
            | Inr vlog \<Rightarrow>
                (case deliver_missing lastl vlog of
                   (lastl', out) \<Rightarrow>
                     backfill_logs rs (end + 1) end lastl'
                       (s1\<lparr>lastLog := Some lastl', resultChan := resultChan s1 @ out\<rparr>)))
      else (Waiting s, r # rs))"

text \<open>The body of \<open>case commingLog := <-checkChan\<close>.\<close>

definition on_log ::
  "log_reply list \<Rightarrow> log \<Rightarrow> log_detector \<Rightarrow> log_detector outcome \<times> log_reply list"
where
  "on_log rs commingLog s =
     (case lastLog s of
        Some lastl \<Rightarrow>
          if hasSeen lastl commingLog then (Waiting s, rs)
          else backfill_logs rs (BlockNumber lastl) (BlockNumber commingLog) lastl s
      | None \<Rightarrow>
          (Waiting (s\<lparr>lastLog := Some commingLog, resultChan := resultChan s @ [commingLog]\<rparr>), rs))"

text \<open>The goroutine's outer loop over what its \<open>select\<close> yields.\<close>

fun detector_logs ::
  "log sel list \<Rightarrow> log_reply list \<Rightarrow> log_detector \<Rightarrow> log_detector outcome \<times> log_reply list"
where
  "detector_logs [] rs s = (Waiting s, rs)"
| "detector_logs (Done # evs) rs s = (Returned s, rs)"
| "detector_logs (Recv l # evs) rs s =
     (case on_log rs l s of
        (Waiting s', rs') \<Rightarrow> detector_logs evs rs' s'
      | (Returned s', rs') \<Rightarrow> (Returned s', rs')
      | (Starved s', rs') \<Rightarrow> (Starved s', rs'))"

definition new_log_detector :: "filter_query \<Rightarrow> log_detector" where
  "new_log_detector q = \<lparr>lastLog = None, query = q, resultChan = [], calls = [], slept = 0\<rparr>"

section \<open>Header subscription: gap detector\<close>

record header_detector =
  lastHeader :: "header option"
  hresultChan :: "header list"
  hcalls :: "int list"
  hslept :: nat

text \<open>A recorded reply of \<open>HeaderByNumber\<close>: what the node answers for the number asked.\<close>

type_synonym header_reply = "int \<Rightarrow> err + header"

text \<open>The \<open>for start.Cmp(end) < 0\<close> loop with its \<open>switch err\<close>.\<close>

fun backfill_headers ::
  "header_reply list \<Rightarrow> int \<Rightarrow> int \<Rightarrow> header_detector \<Rightarrow> header_detector outcome \<times> header_reply list"
where
  "backfill_headers [] start end s =
     (if start < end then (Starved s, []) else (Waiting s, []))"
| "backfill_headers (r # rs) start end s =
     (if start < end then
        (let s1 = s\<lparr>hcalls := hcalls s @ [start]\<rparr>
         in case r start of
              Inl DeadlineExceeded \<Rightarrow> (Returned s1, rs)
            | Inl Canceled \<Rightarrow> (Returned s1, rs)
            | Inl NotFound \<Rightarrow>
                backfill_headers rs start end (s1\<lparr>hslept := hslept s1 + reconnectInterval\<rparr>)
            | Inr h \<Rightarrow>
                backfill_headers rs (start + 1) end (s1\<lparr>hresultChan := hresultChan s1 @ [h]\<rparr>)
            | Inl (OtherErr x) \<Rightarrow>
                backfill_headers rs start end (s1\<lparr>hslept := hslept s1 + reconnectInterval\<rparr>))
      else (Waiting s, r # rs))"

text \<open>The body of \<open>case result := <-checkChan\<close>.\<close>

definition on_header ::
  "header_reply list \<Rightarrow> header \<Rightarrow> header_detector \<Rightarrow> header_detector outcome \<times> header_reply list"
where
  "on_header rs result s =
     (let deliver = (\<lambda>s'. s'\<lparr>lastHeader := Some result, hresultChan := hresultChan s' @ [result]\<rparr>)
      in case lastHeader s of
           Some lastl \<Rightarrow>
             if Number lastl \<ge> Number result then (Waiting s, rs)
             else (case backfill_headers rs (Number lastl + 1) (Number result) s of
                     (Waiting s', rs') \<Rightarrow> (Waiting (deliver s'), rs')
                   | (Returned s', rs') \<Rightarrow> (Returned s', rs')
                   | (Starved s', rs') \<Rightarrow> (Starved s', rs'))
         | None \<Rightarrow> (Waiting (deliver s), rs))"

fun detector_headers ::
  "header sel list \<Rightarrow> header_reply list \<Rightarrow> header_detector \<Rightarrow> header_detector outcome \<times> header_reply list"
where
  "detector_headers [] rs s = (Waiting s, rs)"
| "detector_headers (Done # evs) rs s = (Returned s, rs)"
| "detector_headers (Recv h # evs) rs s =
     (case on_header rs h s of
        (Waiting s', rs') \<Rightarrow> detector_headers evs rs' s'
      | (Returned s', rs') \<Rightarrow> (Returned s', rs')
      | (Starved s', rs') \<Rightarrow> (Starved s', rs'))"

definition new_header_detector :: header_detector where
  "new_header_detector = \<lparr>lastHeader = None, hresultChan = [], hcalls = [], hslept = 0\<rparr>"

section \<open>Resubscription supervisors\<close>

text \<open>
  The second goroutine of each subscription. Between blocking operations it is either
  inside \<open>fn()\<close> (\<open>Connecting\<close>), inside its \<open>select\<close> on an open session (\<open>Active\<close>),
  or has returned (\<open>Stopped\<close>); \<open>time.Sleep(reconnectInterval)\<close> is not interruptible
  and is accounted in \<open>sslept\<close>. The events are what happens around it: \<open>fn()\<close> comes
  back with a session or an error, the session's \<open>Err()\<close> channel fires, \<open>ctx.Done()\<close>
  is closed. An event the goroutine is not waiting on leaves it where it is.
\<close>

datatype sup_pc = Connecting | Active | Stopped

datatype sup_event = Opened | OpenFailed err | SessionFailed err | CtxDone

record supervisor =
  pc :: sup_pc
  opens :: nat
  unsubscribed :: nat
  sslept :: nat

definition new_supervisor :: supervisor where
  "new_supervisor = \<lparr>pc = Connecting, opens = 0, unsubscribed = 0, sslept = 0\<rparr>"

text \<open>\<open>subscribeFilterlog\<close>, second goroutine: the \<open>select\<close> has the cases
  \<open><-sub.Err()\<close> and \<open><-ctx.Done()\<close>.\<close>

definition log_supervisor_step :: "supervisor \<Rightarrow> sup_event \<Rightarrow> supervisor" where
  "log_supervisor_step s ev =
     (case pc s of
        Connecting \<Rightarrow>
          (case ev of
             Opened \<Rightarrow> s\<lparr>pc := Active, opens := opens s + 1\<rparr>
           | OpenFailed e \<Rightarrow>
               if e = Canceled \<or> e = DeadlineExceeded then s\<lparr>pc := Stopped, opens := opens s + 1\<rparr>
               else s\<lparr>opens := opens s + 1, sslept := sslept s + reconnectInterval\<rparr>
           | SessionFailed e \<Rightarrow> s
           | CtxDone \<Rightarrow> s)
      | Active \<Rightarrow>
          (case ev of
             SessionFailed e \<Rightarrow>
               s\<lparr>pc := Connecting, unsubscribed := unsubscribed s + 1,
                 sslept := sslept s + reconnectInterval\<rparr>
           | CtxDone \<Rightarrow> s\<lparr>pc := Stopped\<rparr>
           | Opened \<Rightarrow> s
           | OpenFailed e \<Rightarrow> s)
      | Stopped \<Rightarrow> s)"

text \<open>\<open>subscribeNewHead\<close>, second goroutine: the \<open>select\<close> has the single case
  \<open><-sub.Err()\<close>.\<close>

definition header_supervisor_step :: "supervisor \<Rightarrow> sup_event \<Rightarrow> supervisor" where
  "header_supervisor_step s ev =
     (case pc s of
        Connecting \<Rightarrow>
          (case ev of
             Opened \<Rightarrow> s\<lparr>pc := Active, opens := opens s + 1\<rparr>
           | OpenFailed e \<Rightarrow>
               if e = Canceled \<or> e = DeadlineExceeded then s\<lparr>pc := Stopped, opens := opens s + 1\<rparr>
               else s\<lparr>opens := opens s + 1, sslept := sslept s + reconnectInterval\<rparr>
           | SessionFailed e \<Rightarrow> s
           | CtxDone \<Rightarrow> s)
      | Active \<Rightarrow>
          (case ev of
             SessionFailed e \<Rightarrow>
               s\<lparr>pc := Connecting, unsubscribed := unsubscribed s + 1,
                 sslept := sslept s + reconnectInterval\<rparr>
           | CtxDone \<Rightarrow> s
           | Opened \<Rightarrow> s
           | OpenFailed e \<Rightarrow> s)
      | Stopped \<Rightarrow> s)"

definition log_supervisor :: "sup_event list \<Rightarrow> supervisor \<Rightarrow> supervisor" where
  "log_supervisor evs s = foldl log_supervisor_step s evs"

definition header_supervisor :: "sup_event list \<Rightarrow> supervisor \<Rightarrow> supervisor" where
  "header_supervisor evs s = foldl header_supervisor_step s evs"

section \<open>Subscription facade\<close>

text \<open>
  What a subscribe call leaves behind when it returns: its error result, the contents of
  the check channel, the two goroutines it started (none when it returned early), and the
  \<open>FilterLogs\<close> queries it made itself.
\<close>

record ('e, 'd) subscription =
  ret :: "err option"
  checkChan :: "'e list"
  detector :: "'d option"
  supervisor_task :: "supervisor option"
  eager_calls :: "filter_query list"

definition subscribeFilterlog :: "filter_query \<Rightarrow> log list \<Rightarrow> (log, log_detector) subscription" where
  "subscribeFilterlog q buffered =
     \<lparr>ret = None, checkChan = buffered, detector = Some (new_log_detector q),
      supervisor_task = Some new_supervisor, eager_calls = []\<rparr>"

definition SubscribeFilterlogs :: "log_reply \<Rightarrow> filter_query \<Rightarrow> (log, log_detector) subscription" where
  "SubscribeFilterlogs eager q =
     (case eager of
        Inl e \<Rightarrow>
          \<lparr>ret = Some e, checkChan = [], detector = None, supervisor_task = None, eager_calls = [q]\<rparr>
      | Inr logs \<Rightarrow> (subscribeFilterlog q logs)\<lparr>eager_calls := [q]\<rparr>)"

definition subscribeNewHead :: "header list \<Rightarrow> (header, header_detector) subscription" where
  "subscribeNewHead buffered =
     \<lparr>ret = None, checkChan = buffered, detector = Some new_header_detector,
      supervisor_task = Some new_supervisor, eager_calls = []\<rparr>"

text \<open>The argument says whether the context passed in is already done; it is not consulted.\<close>

definition SubscribeNewHead :: "bool \<Rightarrow> (header, header_detector) subscription" where
  "SubscribeNewHead ctx_done = subscribeNewHead []"

text \<open>
  What the consumer has been sent once the detector has taken the buffered items and then
  the given \<open>select\<close> results, against the recorded replies of the node.
\<close>

definition log_stream ::
  "(log, log_detector) subscription \<Rightarrow> log sel list \<Rightarrow> log_reply list \<Rightarrow> log list" where
  "log_stream sub live rs =
     (case detector sub of
        None \<Rightarrow> []
      | Some d \<Rightarrow> resultChan (state_of (fst (detector_logs (map Recv (checkChan sub) @ live) rs d))))"

definition header_stream ::
  "(header, header_detector) subscription \<Rightarrow> header sel list \<Rightarrow> header_reply list \<Rightarrow> header list" where
  "header_stream sub live rs =
     (case detector sub of
        None \<Rightarrow> []
      | Some d \<Rightarrow> hresultChan (state_of (fst (detector_headers (map Recv (checkChan sub) @ live) rs d))))"

section \<open>Nonce manager\<close>

type_synonym address = "160 word"

text \<open>\<open>remote_calls\<close> records the accounts for which \<open>client.PendingNonceAt\<close> was called.\<close>

record nonce_manager =
  nonceMap :: "address \<rightharpoonup> u64"
  remote_calls :: "address list"

definition NewNonceManager :: nonce_manager where
  "NewNonceManager = \<lparr>nonceMap = Map.empty, remote_calls = []\<rparr>"

text \<open>The first argument is what the remote client answers if it is asked now.\<close>

definition PendingNonceAt :: "err + u64 \<Rightarrow> address \<Rightarrow> nonce_manager \<Rightarrow> (err + u64) \<times> nonce_manager" where
  "PendingNonceAt remote account nm =
     (case nonceMap nm account of
        Some nonce \<Rightarrow> (Inr nonce, nm\<lparr>nonceMap := (nonceMap nm)(account \<mapsto> nonce + 1)\<rparr>)
      | None \<Rightarrow>
          (let nm1 = nm\<lparr>remote_calls := remote_calls nm @ [account]\<rparr>
           in case remote of
                Inl e \<Rightarrow> (Inl e, nm1)
              | Inr nonce \<Rightarrow> (Inr nonce, nm1\<lparr>nonceMap := (nonceMap nm1)(account \<mapsto> nonce + 1)\<rparr>)))"

section \<open>Sample values\<close>

abbreviation logA :: log where
  "logA \<equiv> \<lparr>BlockNumber = 1, TxIndex = 0, Index = 0, TxHash = 10\<rparr>"

abbreviation logB :: log where
  "logB \<equiv> \<lparr>BlockNumber = 2, TxIndex = 0, Index = 0, TxHash = 20\<rparr>"

abbreviation logC :: log where
  "logC \<equiv> \<lparr>BlockNumber = 3, TxIndex = 0, Index = 0, TxHash = 30\<rparr>"

abbreviation any_logs :: filter_query where
  "any_logs \<equiv> \<lparr>FromBlock = None, ToBlock = None, Criteria = 0\<rparr>"

abbreviation node_header :: header_reply where
  "node_header \<equiv> (\<lambda>n. Inr \<lparr>Number = n, Hash = 0\<rparr>)"

section \<open>Predicates used in the proofs\<close>




section \<open>Duplicate test\<close>

lemma hasSeen_iff: "hasSeen a b \<longleftrightarrow> sequenceKey b \<le> sequenceKey a"
  by (auto simp: hasSeen_def sequenceKey_def less_eq_prod_def)

lemma backfill_logs_calls_mono:
  "length (calls s) \<le> length (calls (state_of (fst (backfill_logs rs a b l s))))"
proof (induction rs arbitrary: a b l s)
  case Nil
  show ?case by simp
next
  case (Cons r rs)
  show ?case
  proof (cases "a \<le> b")
    case False
    then show ?thesis by simp
  next
    case True
    show ?thesis
    proof (cases r)
      case (Inl e)
      show ?thesis
      proof (cases "e = Canceled \<or> e = DeadlineExceeded")
        case True
        with \<open>a \<le> b\<close> Inl show ?thesis by (simp add: Let_def)
      next
        case False
        have "length (calls s) \<le> length (calls (s\<lparr>query := (query s)\<lparr>FromBlock := Some (sint a)\<rparr>,
                 calls := calls s @ [(query s)\<lparr>FromBlock := Some (sint a)\<rparr>], slept := slept s + reconnectInterval\<rparr>))"
          by simp
        also have "\<dots> \<le> length (calls (state_of (fst (backfill_logs rs a b l (s\<lparr>query := (query s)\<lparr>FromBlock := Some (sint a)\<rparr>,
                 calls := calls s @ [(query s)\<lparr>FromBlock := Some (sint a)\<rparr>], slept := slept s + reconnectInterval\<rparr>)))))"
          by (rule Cons.IH)
        finally show ?thesis using False \<open>a \<le> b\<close> Inl by (simp add: Let_def)
      qed
    next
      case (Inr vlog)
      obtain l' out where d: "deliver_missing l vlog = (l', out)" by (cases "deliver_missing l vlog")
      let ?s2 = "s\<lparr>query := (query s)\<lparr>FromBlock := Some (sint a)\<rparr>,
                 calls := calls s @ [(query s)\<lparr>FromBlock := Some (sint a)\<rparr>], lastLog := Some l', resultChan := resultChan s @ out\<rparr>"
      have "length (calls s) \<le> length (calls ?s2)" by simp
      also have "\<dots> \<le> length (calls (state_of (fst (backfill_logs rs (b + 1) b l' ?s2))))"
        by (rule Cons.IH)
      finally show ?thesis using \<open>a \<le> b\<close> Inr d by (simp add: Let_def)
    qed
  qed
qed

lemma backfill_logs_calls_grow:
  assumes "a \<le> b"
  shows "length (calls s) < length (calls (state_of (fst (backfill_logs (r # rs) a b l s))))"
proof (cases r)
  case (Inl e)
  let ?q = "(query s)\<lparr>FromBlock := Some (sint a)\<rparr>"
  let ?s2 = "s\<lparr>query := ?q, calls := calls s @ [?q], slept := slept s + reconnectInterval\<rparr>"
  show ?thesis
  proof (cases "e = Canceled \<or> e = DeadlineExceeded")
    case True
    with assms Inl show ?thesis by (simp add: Let_def)
  next
    case False
    have "length (calls s) < length (calls ?s2)" by simp
    also have "\<dots> \<le> length (calls (state_of (fst (backfill_logs rs a b l ?s2))))"
      by (rule backfill_logs_calls_mono)
    finally show ?thesis using False assms Inl by (simp add: Let_def)
  qed
next
  case (Inr vlog)
  obtain l' out where d: "deliver_missing l vlog = (l', out)" by (cases "deliver_missing l vlog")
  let ?q = "(query s)\<lparr>FromBlock := Some (sint a)\<rparr>"
  let ?s2 = "s\<lparr>query := ?q, calls := calls s @ [?q], lastLog := Some l', resultChan := resultChan s @ out\<rparr>"
  have "length (calls s) < length (calls ?s2)" by simp
  also have "\<dots> \<le> length (calls (state_of (fst (backfill_logs rs (b + 1) b l' ?s2))))"
    by (rule backfill_logs_calls_mono)
  finally show ?thesis using assms Inr d by (simp add: Let_def)
qed

lemma backfill_logs_not_idle:
  assumes "a \<le> b"
  shows "backfill_logs rs a b l s \<noteq> (Waiting s, rs)"
proof (cases rs)
  case Nil
  with assms show ?thesis by simp
next
  case (Cons r rs')
  show ?thesis
  proof
    assume "backfill_logs rs a b l s = (Waiting s, rs)"
    then have "calls (state_of (fst (backfill_logs rs a b l s))) = calls s" by simp
    with backfill_logs_calls_grow [OF assms, of s r rs' l] Cons show False by simp
  qed
qed

lemma not_hasSeen_block: "\<not> hasSeen l e \<Longrightarrow> BlockNumber l \<le> BlockNumber e"
  by (auto simp: hasSeen_def split: if_splits)

text \<open>
  Claim C6. A raw item arriving while nothing has been seen is sent on and becomes the
  last seen item. Otherwise it is dropped, leaving the state and the node untouched,
  exactly when its sequence key is at most the last seen one: for logs the key is
  (block number, transaction index, log index) in lexicographic order, which is what
  \<open>hasSeen\<close> computes; for headers it is the block number.
\<close>

theorem duplicate_classification:
  "on_log rs e (s\<lparr>lastLog := None\<rparr>)
     = (Waiting (s\<lparr>lastLog := Some e, resultChan := resultChan s @ [e]\<rparr>), rs)
   \<and> (hasSeen l e \<longleftrightarrow> sequenceKey e \<le> sequenceKey l)
   \<and> (on_log rs e (s\<lparr>lastLog := Some l\<rparr>) = (Waiting (s\<lparr>lastLog := Some l\<rparr>), rs)
        \<longleftrightarrow> sequenceKey e \<le> sequenceKey l)
   \<and> on_header hrs h (t\<lparr>lastHeader := None\<rparr>)
     = (Waiting (t\<lparr>lastHeader := Some h, hresultChan := hresultChan t @ [h]\<rparr>), hrs)
   \<and> (on_header hrs h (t\<lparr>lastHeader := Some k\<rparr>) = (Waiting (t\<lparr>lastHeader := Some k\<rparr>), hrs)
        \<longleftrightarrow> Number h \<le> Number k)"
proof -
  have 1: "on_log rs e (s\<lparr>lastLog := None\<rparr>)
     = (Waiting (s\<lparr>lastLog := Some e, resultChan := resultChan s @ [e]\<rparr>), rs)"
    by (simp add: on_log_def)
  have 2: "hasSeen l e \<longleftrightarrow> sequenceKey e \<le> sequenceKey l"
    by (rule hasSeen_iff)
  have 3: "on_log rs e (s\<lparr>lastLog := Some l\<rparr>) = (Waiting (s\<lparr>lastLog := Some l\<rparr>), rs)
        \<longleftrightarrow> sequenceKey e \<le> sequenceKey l"
  proof (cases "hasSeen l e")
    case True
    then show ?thesis using 2 by (simp add: on_log_def)
  next
    case False
    from backfill_logs_not_idle [OF not_hasSeen_block [OF False]] False 2
    show ?thesis by (simp add: on_log_def)
  qed
  have 4: "on_header hrs h (t\<lparr>lastHeader := None\<rparr>)
     = (Waiting (t\<lparr>lastHeader := Some h, hresultChan := hresultChan t @ [h]\<rparr>), hrs)"
    by (simp add: on_header_def)
  have 5: "on_header hrs h (t\<lparr>lastHeader := Some k\<rparr>) = (Waiting (t\<lparr>lastHeader := Some k\<rparr>), hrs)
        \<longleftrightarrow> Number h \<le> Number k"
  proof (cases "Number h \<le> Number k")
    case True
    then show ?thesis by (simp add: on_header_def)
  next
    case False
    let ?t = "t\<lparr>lastHeader := Some k\<rparr>"
    obtain o' rs' where b: "backfill_headers hrs (Number k + 1) (Number h) ?t = (o', rs')"
      by (cases "backfill_headers hrs (Number k + 1) (Number h) ?t")
    have "on_header hrs h ?t \<noteq> (Waiting ?t, hrs)"
    proof (cases o')
      case (Waiting s')
      show ?thesis
      proof
        assume "on_header hrs h ?t = (Waiting ?t, hrs)"
        with b False Waiting
        have "s'\<lparr>lastHeader := Some h, hresultChan := hresultChan s' @ [h]\<rparr> = ?t"
          by (simp add: on_header_def Let_def)
        then have "lastHeader (s'\<lparr>lastHeader := Some h, hresultChan := hresultChan s' @ [h]\<rparr>)
                     = lastHeader ?t"
          by (rule arg_cong)
        then have "h = k" by simp
        with False show False by simp
      qed
    next
      case (Returned s')
      with b False show ?thesis by (simp add: on_header_def Let_def)
    next
      case (Starved s')
      with b False show ?thesis by (simp add: on_header_def Let_def)
    qed
    with False show ?thesis by simp
  qed
  from 1 2 3 4 5 show ?thesis by blast
qed

section \<open>Failures of the backfill query\<close>







section \<open>Nonce cache\<close>

text \<open>
  Claim C9, as stated, fails: the remote client is asked again on the second call for an
  account when the first call failed, because a failed call caches nothing.
\<close>

theorem PendingNonceAt_refetch_after_failure:
  "PendingNonceAt (Inl (OtherErr 0)) 1 NewNonceManager
     = (Inl (OtherErr 0), \<lparr>nonceMap = Map.empty, remote_calls = [1]\<rparr>)
   \<and> PendingNonceAt (Inr 5) 1 \<lparr>nonceMap = Map.empty, remote_calls = [1]\<rparr>
     = (Inr 5, \<lparr>nonceMap = [1 \<mapsto> 6], remote_calls = [1, 1]\<rparr>)"
  by (simp add: PendingNonceAt_def NewNonceManager_def)

text \<open>
  Claim C9, amended. A call asks the remote client exactly when the account has no
  cached nonce. A failed remote query returns the error and leaves the nonce map as it
  was. A successful call returns the cached nonce, or the remote one when nothing is
  cached, and stores that value plus one (in \<open>uint64\<close> arithmetic) for the account
  only; so the next call for the account returns one more, whatever the remote client
  would answer, without asking it.
\<close>

theorem PendingNonceAt_cache:
  assumes "PendingNonceAt remote a nm = (r, nm')"
  shows "remote_calls nm' = (if nonceMap nm a = None then remote_calls nm @ [a] else remote_calls nm)
       \<and> (\<forall>e. r = Inl e \<longrightarrow> nonceMap nm a = None \<and> remote = Inl e \<and> nonceMap nm' = nonceMap nm)
       \<and> (\<forall>n. r = Inr n \<longrightarrow>
            (nonceMap nm a = Some n \<or> nonceMap nm a = None \<and> remote = Inr n)
            \<and> nonceMap nm' = (nonceMap nm)(a \<mapsto> n + 1)
            \<and> (\<forall>remote2. PendingNonceAt remote2 a nm'
                  = (Inr (n + 1), nm'\<lparr>nonceMap := (nonceMap nm')(a \<mapsto> n + 1 + 1)\<rparr>)))
       \<and> (\<forall>b. b \<noteq> a \<longrightarrow> nonceMap nm' b = nonceMap nm b)"
  using assms
  by (auto simp: PendingNonceAt_def Let_def split: option.splits sum.splits)

theorem PendingNonceAt_cache_witness:
  "PendingNonceAt (Inr 7) 1 NewNonceManager = (Inr 7, \<lparr>nonceMap = [1 \<mapsto> 8], remote_calls = [1]\<rparr>)
   \<and> PendingNonceAt (Inl Canceled) 1 \<lparr>nonceMap = [1 \<mapsto> 8], remote_calls = [1]\<rparr>
       = (Inr 8, \<lparr>nonceMap = [1 \<mapsto> 9], remote_calls = [1]\<rparr>)
   \<and> remote_calls \<lparr>nonceMap = [1 \<mapsto> 8::u64], remote_calls = [1::address]\<rparr> = [] @ [1]"
proof -
  have h: "PendingNonceAt (Inr 7) 1 NewNonceManager = (Inr 7, \<lparr>nonceMap = [1 \<mapsto> 8], remote_calls = [1]\<rparr>)"
    by (simp add: PendingNonceAt_def NewNonceManager_def)
  from PendingNonceAt_cache [OF h] h show ?thesis
    by (simp add: NewNonceManager_def)
qed

section \<open>Order of delivery\<close>
















section \<open>Closing a gap in the log stream\<close>

lemma word_succ_gt: "(b::u64) \<noteq> - 1 \<Longrightarrow> \<not> b + 1 \<le> b"
  using inc_less_eq_triv_imp by blast






section \<open>Range of the gap queries\<close>

lemma backfill_logs_calls:
  assumes "b \<noteq> - 1"
  shows "\<exists>n. calls (state_of (fst (backfill_logs rs a b l s)))
           = calls s @ replicate n ((query s)\<lparr>FromBlock := Some (sint a)\<rparr>)"
proof (induction rs arbitrary: l s)
  case Nil
  show ?case by (rule exI [of _ 0]) simp
next
  case (Cons r rs)
  let ?q = "(query s)\<lparr>FromBlock := Some (sint a)\<rparr>"
  show ?case
  proof (cases "a \<le> b")
    case False
    then have "calls (state_of (fst (backfill_logs (r # rs) a b l s))) = calls s @ replicate 0 ?q"
      by simp
    then show ?thesis by blast
  next
    case True
    show ?thesis
    proof (cases r)
      case (Inl e)
      show ?thesis
      proof (cases "e = Canceled \<or> e = DeadlineExceeded")
        case True
        with \<open>a \<le> b\<close> Inl
        have "calls (state_of (fst (backfill_logs (r # rs) a b l s))) = calls s @ replicate 1 ?q"
          by (simp add: Let_def)
        then show ?thesis by blast
      next
        case False
        let ?s2 = "s\<lparr>query := ?q, calls := calls s @ [?q], slept := slept s + reconnectInterval\<rparr>"
        from Cons.IH [of l ?s2] obtain n where
          "calls (state_of (fst (backfill_logs rs a b l ?s2))) = calls ?s2 @ replicate n ((query ?s2)\<lparr>FromBlock := Some (sint a)\<rparr>)"
          by blast
        with False \<open>a \<le> b\<close> Inl
        have "calls (state_of (fst (backfill_logs (r # rs) a b l s))) = calls s @ replicate (Suc n) ?q"
          by (simp add: Let_def)
        then show ?thesis by blast
      qed
    next
      case (Inr vlog)
      obtain l' out where d: "deliver_missing l vlog = (l', out)" by (cases "deliver_missing l vlog")
      from word_succ_gt [OF assms] have stop: "\<not> b + 1 \<le> b" .
      have "calls (state_of (fst (backfill_logs (r # rs) a b l s))) = calls s @ replicate 1 ?q"
        using True Inr d stop by (cases rs) (simp_all add: Let_def)
      then show ?thesis by blast
    qed
  qed
qed

lemma backfill_headers_calls:
  "\<exists>ns. hcalls (state_of (fst (backfill_headers rs a b s))) = hcalls s @ ns
        \<and> set ns \<subseteq> {a..<b} \<and> sorted ns"
proof (induction rs arbitrary: a s)
  case Nil
  show ?case by simp
next
  case (Cons r rs)
  show ?case
  proof (cases "a < b")
    case False
    then show ?thesis by simp
  next
    case True
    let ?s1 = "s\<lparr>hcalls := hcalls s @ [a]\<rparr>"
    show ?thesis
    proof (cases "r a")
      case (Inr h)
      let ?s2 = "?s1\<lparr>hresultChan := hresultChan ?s1 @ [h]\<rparr>"
      from Cons.IH [of "a + 1" ?s2] obtain ns where
        ns: "hcalls (state_of (fst (backfill_headers rs (a + 1) b ?s2))) = hcalls ?s2 @ ns"
          "set ns \<subseteq> {a + 1..<b}" "sorted ns" by blast
      have "hcalls (state_of (fst (backfill_headers (r # rs) a b s))) = hcalls s @ (a # ns)"
        using True Inr ns(1) by (simp add: Let_def)
      moreover have "set (a # ns) \<subseteq> {a..<b}" "sorted (a # ns)"
        using ns(2,3) True by auto
      ultimately show ?thesis by blast
    next
      case (Inl e)
      let ?s2 = "?s1\<lparr>hslept := hslept ?s1 + reconnectInterval\<rparr>"
      from Cons.IH [of a ?s2] obtain ns where
        ns: "hcalls (state_of (fst (backfill_headers rs a b ?s2))) = hcalls ?s2 @ ns"
          "set ns \<subseteq> {a..<b}" "sorted ns" by blast
      have "hcalls (state_of (fst (backfill_headers (r # rs) a b s))) = hcalls s @ (a # ns)
            \<or> hcalls (state_of (fst (backfill_headers (r # rs) a b s))) = hcalls s @ [a]"
        using True Inl ns(1) by (cases e) (simp_all add: Let_def)
      moreover have "set (a # ns) \<subseteq> {a..<b}" "sorted (a # ns)" "set [a] \<subseteq> {a..<b}" "sorted [a]"
        using ns(2,3) True by auto
      ultimately show ?thesis by blast
    qed
  qed
qed

lemma backfill_headers_all_found:
  assumes "\<forall>r \<in> set rs. \<forall>n. \<exists>x. r n = Inr x" and "nat (b - a) \<le> length rs"
  shows "\<exists>s'. fst (backfill_headers rs a b s) = Waiting s' \<and> hcalls s' = hcalls s @ [a..b - 1]"
  using assms
proof (induction rs arbitrary: a s)
  case Nil
  then show ?case by simp
next
  case (Cons r rs)
  show ?case
  proof (cases "a < b")
    case False
    then show ?thesis by simp
  next
    case True
    from Cons.prems(1) obtain x where x: "r a = Inr x" by auto
    let ?s2 = "s\<lparr>hcalls := hcalls s @ [a], hresultChan := hresultChan s @ [x]\<rparr>"
    have "\<forall>r \<in> set rs. \<forall>n. \<exists>x. r n = Inr x" "nat (b - (a + 1)) \<le> length rs"
      using Cons.prems True by auto
    from Cons.IH [OF this, of ?s2] obtain s' where
      "fst (backfill_headers rs (a + 1) b ?s2) = Waiting s'" "hcalls s' = hcalls ?s2 @ [a + 1..b - 1]"
      by blast
    moreover have "[a..b - 1] = a # [a + 1..b - 1]"
      using True by (simp add: upto_rec1)
    ultimately show ?thesis using True x by (simp add: Let_def)
  qed
qed

lemma on_header_calls:
  assumes "lastHeader t = Some k" and "Number k < Number h"
  shows "hcalls (state_of (fst (on_header hrs h t)))
         = hcalls (state_of (fst (backfill_headers hrs (Number k + 1) (Number h) t)))"
proof -
  obtain out rs' where b: "backfill_headers hrs (Number k + 1) (Number h) t = (out, rs')"
    by (cases "backfill_headers hrs (Number k + 1) (Number h) t")
  with assms show ?thesis by (cases out) (simp_all add: on_header_def Let_def)
qed

text \<open>
  Claim C4, as stated, fails for headers: after header 1, header 4 makes the detector ask
  for the numbers 2 and 3, neither the last seen block nor the triggering one.
\<close>

theorem header_gap_queries_exclusive:
  "hcalls (state_of (fst (detector_headers
      [Recv \<lparr>Number = 1, Hash = 11\<rparr>, Recv \<lparr>Number = 4, Hash = 14\<rparr>]
      [node_header, node_header] new_header_detector))) = [2, 3]"
  by (simp add: on_header_def new_header_detector_def Let_def)

text \<open>
  Claim C4, amended. In the log variant every query of a pass is the detector's query
  with \<open>FromBlock\<close> set to the block number of the item last seen when the triggering
  item arrived (read as \<open>int64\<close>), inclusive; \<open>ToBlock\<close> is left as the criterion has it.
  In the header variant the pass asks \<open>HeaderByNumber\<close> for single numbers, in
  non-decreasing order and all strictly between the last seen and the triggering number;
  when every request is answered these are exactly last seen + 1 up to target - 1.
\<close>

theorem gap_query_ranges:
  assumes "lastLog s = Some l" and "\<not> hasSeen l e" and "BlockNumber e \<noteq> - 1"
    and "lastHeader t = Some k" and "Number k < Number h"
  shows "take (length (calls s)) (calls (state_of (fst (on_log rs e s)))) = calls s
       \<and> (\<forall>c \<in> set (drop (length (calls s)) (calls (state_of (fst (on_log rs e s))))).
             c = (query s)\<lparr>FromBlock := Some (sint (BlockNumber l))\<rparr>)
       \<and> take (length (hcalls t)) (hcalls (state_of (fst (on_header hrs h t)))) = hcalls t
       \<and> set (drop (length (hcalls t)) (hcalls (state_of (fst (on_header hrs h t)))))
             \<subseteq> {Number k + 1..<Number h}
       \<and> sorted (drop (length (hcalls t)) (hcalls (state_of (fst (on_header hrs h t)))))
       \<and> ((\<forall>r \<in> set hrs. \<forall>n. \<exists>x. r n = Inr x) \<and> nat (Number h - Number k - 1) \<le> length hrs
            \<longrightarrow> hcalls (state_of (fst (on_header hrs h t))) = hcalls t @ [Number k + 1..Number h - 1])"
proof -
  from backfill_logs_calls [OF assms(3), of rs "BlockNumber l" l s] obtain n where
    "calls (state_of (fst (backfill_logs rs (BlockNumber l) (BlockNumber e) l s)))
       = calls s @ replicate n ((query s)\<lparr>FromBlock := Some (sint (BlockNumber l))\<rparr>)"
    by blast
  with assms(1,2) have c: "calls (state_of (fst (on_log rs e s)))
       = calls s @ replicate n ((query s)\<lparr>FromBlock := Some (sint (BlockNumber l))\<rparr>)"
    by (simp add: on_log_def)
  have 1: "take (length (calls s)) (calls (state_of (fst (on_log rs e s)))) = calls s"
    and 2: "\<forall>c \<in> set (drop (length (calls s)) (calls (state_of (fst (on_log rs e s))))).
             c = (query s)\<lparr>FromBlock := Some (sint (BlockNumber l))\<rparr>"
    by (simp_all add: c)
  from backfill_headers_calls [of hrs "Number k + 1" "Number h" t] obtain ns where
    ns: "hcalls (state_of (fst (backfill_headers hrs (Number k + 1) (Number h) t))) = hcalls t @ ns"
      "set ns \<subseteq> {Number k + 1..<Number h}" "sorted ns" by blast
  from ns(1) have hc: "hcalls (state_of (fst (on_header hrs h t))) = hcalls t @ ns"
    by (simp add: on_header_calls [OF assms(4,5)])
  have 3: "take (length (hcalls t)) (hcalls (state_of (fst (on_header hrs h t)))) = hcalls t"
    and 4: "set (drop (length (hcalls t)) (hcalls (state_of (fst (on_header hrs h t)))))
             \<subseteq> {Number k + 1..<Number h}"
    and 5: "sorted (drop (length (hcalls t)) (hcalls (state_of (fst (on_header hrs h t)))))"
    using ns(2,3) by (simp_all add: hc)
  have 6: "(\<forall>r \<in> set hrs. \<forall>n. \<exists>x. r n = Inr x) \<and> nat (Number h - Number k - 1) \<le> length hrs
            \<longrightarrow> hcalls (state_of (fst (on_header hrs h t))) = hcalls t @ [Number k + 1..Number h - 1]"
  proof
    assume a: "(\<forall>r \<in> set hrs. \<forall>n. \<exists>x. r n = Inr x) \<and> nat (Number h - Number k - 1) \<le> length hrs"
    then have "nat (Number h - (Number k + 1)) \<le> length hrs" by (simp add: algebra_simps)
    with a backfill_headers_all_found [of hrs "Number h" "Number k + 1" t]
    obtain s' where "fst (backfill_headers hrs (Number k + 1) (Number h) t) = Waiting s'"
      "hcalls s' = hcalls t @ [Number k + 1..Number h - 1]" by blast
    then show "hcalls (state_of (fst (on_header hrs h t))) = hcalls t @ [Number k + 1..Number h - 1]"
      by (simp add: on_header_calls [OF assms(4,5)])
  qed
  from 1 2 3 4 5 6 show ?thesis by blast
qed

theorem gap_query_ranges_witness:
  "calls (state_of (fst (on_log [Inl NotFound, Inr [logB, logC]] logC
      \<lparr>lastLog = Some logA, query = any_logs, resultChan = [logA], calls = [], slept = 0\<rparr>)))
     = [\<lparr>FromBlock = Some 1, ToBlock = None, Criteria = 0\<rparr>,
        \<lparr>FromBlock = Some 1, ToBlock = None, Criteria = 0\<rparr>]
   \<and> hcalls (state_of (fst (on_header [node_header, node_header] \<lparr>Number = 4, Hash = 14\<rparr>
      \<lparr>lastHeader = Some \<lparr>Number = 1, Hash = 11\<rparr>, hresultChan = [\<lparr>Number = 1, Hash = 11\<rparr>],
       hcalls = [], hslept = 0\<rparr>)))
     = [] @ [1 + 1..4 - 1]"
proof -
  let ?s = "\<lparr>lastLog = Some logA, query = any_logs, resultChan = [logA], calls = [], slept = 0\<rparr>"
  let ?t = "\<lparr>lastHeader = Some \<lparr>Number = 1, Hash = 11\<rparr>, hresultChan = [\<lparr>Number = 1, Hash = 11\<rparr>],
       hcalls = [], hslept = 0\<rparr>"
  have h1: "lastLog ?s = Some logA" by simp
  have h2: "\<not> hasSeen logA logC" by (simp add: hasSeen_def)
  have h3: "BlockNumber logC \<noteq> - 1" by simp
  have h4: "lastHeader ?t = Some \<lparr>Number = 1, Hash = 11\<rparr>" by simp
  have h5: "Number \<lparr>Number = 1, Hash = 11\<rparr> < Number \<lparr>Number = 4, Hash = 14\<rparr>" by simp
  have h6: "(\<forall>r \<in> set [node_header, node_header]. \<forall>n. \<exists>x. r n = Inr x)
            \<and> nat (Number \<lparr>Number = 4, Hash = 14\<rparr> - Number \<lparr>Number = 1, Hash = 11\<rparr> - 1)
                \<le> length [node_header, node_header]" by simp
  have c: "calls (state_of (fst (on_log [Inl NotFound, Inr [logB, logC]] logC ?s)))
     = [\<lparr>FromBlock = Some 1, ToBlock = None, Criteria = 0\<rparr>,
        \<lparr>FromBlock = Some 1, ToBlock = None, Criteria = 0\<rparr>]"
    by (simp add: on_log_def hasSeen_def Let_def)
  from gap_query_ranges [OF h1 h2 h3 h4 h5, of "[Inl NotFound, Inr [logB, logC]]" "[node_header, node_header]"] h6
  have "hcalls (state_of (fst (on_header [node_header, node_header] \<lparr>Number = 4, Hash = 14\<rparr> ?t)))
     = [] @ [1 + 1..4 - 1]"
    by simp
  with c show ?thesis by blast
qed

section \<open>What is sent only grows; why a task returns\<close>

lemma backfill_logs_sent_prefix:
  "prefix (resultChan s) (resultChan (state_of (fst (backfill_logs rs a b l s))))"
proof (induction rs arbitrary: a l s)
  case Nil
  show ?case by simp
next
  case (Cons r rs)
  let ?q = "(query s)\<lparr>FromBlock := Some (sint a)\<rparr>"
  show ?case
  proof (cases "a \<le> b")
    case False
    then show ?thesis by simp
  next
    case True
    show ?thesis
    proof (cases r)
      case (Inl e)
      let ?s2 = "s\<lparr>query := ?q, calls := calls s @ [?q], slept := slept s + reconnectInterval\<rparr>"
      from Cons.IH [of ?s2 a l] True Inl show ?thesis by (simp add: Let_def)
    next
      case (Inr vlog)
      obtain l' out where d: "deliver_missing l vlog = (l', out)" by (cases "deliver_missing l vlog")
      let ?s2 = "s\<lparr>query := ?q, calls := calls s @ [?q], lastLog := Some l',
                   resultChan := resultChan s @ out\<rparr>"
      from Cons.IH [of ?s2 "b + 1" l']
      have "prefix (resultChan s) (resultChan (state_of (fst (backfill_logs rs (b + 1) b l' ?s2))))"
        by (auto dest: append_prefixD)
      with True Inr d show ?thesis by (simp add: Let_def)
    qed
  qed
qed

lemma backfill_logs_script: "set (snd (backfill_logs rs a b l s)) \<subseteq> set rs"
proof (induction rs arbitrary: a l s)
  case Nil
  show ?case by simp
next
  case (Cons r rs)
  show ?case
  proof (cases "a \<le> b")
    case False
    then show ?thesis by simp
  next
    case True
    show ?thesis
    proof (cases r)
      case (Inl e)
      with True Cons.IH show ?thesis by (auto simp: Let_def)
    next
      case (Inr vlog)
      with True Cons.IH show ?thesis by (auto simp: Let_def split: prod.splits)
    qed
  qed
qed

lemma backfill_logs_returned:
  "fst (backfill_logs rs a b l s) = Returned s' \<Longrightarrow>
     Inl Canceled \<in> set rs \<or> Inl DeadlineExceeded \<in> set rs"
proof (induction rs arbitrary: a l s)
  case Nil
  then show ?case by (simp split: if_splits)
next
  case (Cons r rs)
  show ?case
  proof (cases "a \<le> b")
    case False
    with Cons.prems show ?thesis by simp
  next
    case True
    show ?thesis
    proof (cases r)
      case (Inl e)
      with True Cons show ?thesis by (auto simp: Let_def split: if_splits)
    next
      case (Inr vlog)
      with True Cons show ?thesis by (auto simp: Let_def split: prod.splits)
    qed
  qed
qed

lemma on_log_sent_prefix:
  "prefix (resultChan s) (resultChan (state_of (fst (on_log rs e s))))"
  using backfill_logs_sent_prefix by (simp add: on_log_def split: option.splits)

lemma on_log_script: "set (snd (on_log rs e s)) \<subseteq> set rs"
  using backfill_logs_script by (simp add: on_log_def split: option.splits)

lemma on_log_returned:
  "fst (on_log rs e s) = Returned s' \<Longrightarrow> Inl Canceled \<in> set rs \<or> Inl DeadlineExceeded \<in> set rs"
  using backfill_logs_returned by (auto simp: on_log_def split: option.splits if_splits)

lemma detector_logs_sent_prefix:
  "prefix (resultChan s) (resultChan (state_of (fst (detector_logs evs rs s))))"
proof (induction evs arbitrary: rs s)
  case Nil
  show ?case by simp
next
  case (Cons ev evs)
  show ?case
  proof (cases ev)
    case Done
    then show ?thesis by simp
  next
    case (Recv x)
    obtain out rs' where o: "on_log rs x s = (out, rs')" by (cases "on_log rs x s")
    from on_log_sent_prefix [of s rs x] o have p: "prefix (resultChan s) (resultChan (state_of out))"
      by simp
    show ?thesis
    proof (cases out)
      case (Waiting s1)
      with p have "prefix (resultChan s) (resultChan s1)" by simp
      also have "prefix (resultChan s1) (resultChan (state_of (fst (detector_logs evs rs' s1))))"
        by (rule Cons.IH)
      finally show ?thesis using Recv o Waiting by simp
    next
      case (Returned s1)
      with p Recv o show ?thesis by simp
    next
      case (Starved s1)
      with p Recv o show ?thesis by simp
    qed
  qed
qed

lemma detector_logs_returned:
  "fst (detector_logs evs rs s) = Returned s' \<Longrightarrow>
     Done \<in> set evs \<or> Inl Canceled \<in> set rs \<or> Inl DeadlineExceeded \<in> set rs"
proof (induction evs arbitrary: rs s)
  case Nil
  then show ?case by simp
next
  case (Cons ev evs)
  show ?case
  proof (cases ev)
    case Done
    then show ?thesis by simp
  next
    case (Recv x)
    obtain out rs' where o: "on_log rs x s = (out, rs')" by (cases "on_log rs x s")
    from on_log_script [of rs x s] o have sub: "set rs' \<subseteq> set rs" by simp
    show ?thesis
    proof (cases out)
      case (Waiting s1)
      with Cons.prems Recv o have "fst (detector_logs evs rs' s1) = Returned s'" by simp
      from Cons.IH [OF this] sub show ?thesis by auto
    next
      case (Returned s1)
      with o on_log_returned [of rs x s s1] show ?thesis by simp
    next
      case (Starved s1)
      with Cons.prems Recv o show ?thesis by simp
    qed
  qed
qed

lemma log_supervisor_snoc:
  "log_supervisor (evs @ [ev]) s = log_supervisor_step (log_supervisor evs s) ev"
  by (simp add: log_supervisor_def)

lemma log_supervisor_stops_on_cancel:
  "pc s \<noteq> Stopped \<Longrightarrow> pc (log_supervisor evs s) = Stopped \<Longrightarrow>
     CtxDone \<in> set evs \<or> OpenFailed Canceled \<in> set evs \<or> OpenFailed DeadlineExceeded \<in> set evs"
proof (induction evs rule: rev_induct)
  case Nil
  then show ?case by (simp add: log_supervisor_def)
next
  case (snoc ev evs)
  show ?case
  proof (cases "pc (log_supervisor evs s) = Stopped")
    case True
    from snoc.IH [OF snoc.prems(1) True] show ?thesis by auto
  next
    case False
    with snoc.prems(2) show ?thesis
      by (auto simp: log_supervisor_snoc log_supervisor_step_def
               split: sup_pc.splits sup_event.splits if_splits)
  qed
qed


lemma backfill_headers_sent_prefix:
  "prefix (hresultChan s) (hresultChan (state_of (fst (backfill_headers rs a b s))))"
proof (induction rs arbitrary: a s)
  case Nil
  show ?case by simp
next
  case (Cons r rs)
  show ?case
  proof (cases "a < b")
    case False
    then show ?thesis by simp
  next
    case True
    let ?s1 = "s\<lparr>hcalls := hcalls s @ [a]\<rparr>"
    show ?thesis
    proof (cases "r a")
      case (Inr h)
      from Cons.IH [of "?s1\<lparr>hresultChan := hresultChan ?s1 @ [h]\<rparr>" "a + 1"]
      have "prefix (hresultChan s) (hresultChan (state_of (fst (backfill_headers rs (a + 1) b
              (?s1\<lparr>hresultChan := hresultChan ?s1 @ [h]\<rparr>)))))"
        by (auto dest: append_prefixD)
      with True Inr show ?thesis by (simp add: Let_def)
    next
      case (Inl e)
      from Cons.IH [of "?s1\<lparr>hslept := hslept ?s1 + reconnectInterval\<rparr>" a] True Inl
      show ?thesis by (cases e) (simp_all add: Let_def)
    qed
  qed
qed

lemma on_header_sent_prefix:
  "prefix (hresultChan s) (hresultChan (state_of (fst (on_header rs h s))))"
proof (cases "lastHeader s")
  case None
  then show ?thesis by (simp add: on_header_def)
next
  case (Some k)
  obtain out rs' where b: "backfill_headers rs (Number k + 1) (Number h) s = (out, rs')"
    by (cases "backfill_headers rs (Number k + 1) (Number h) s")
  from backfill_headers_sent_prefix [of s rs "Number k + 1" "Number h"] b
  have "prefix (hresultChan s) (hresultChan (state_of out))" by simp
  with Some b show ?thesis by (cases out) (simp_all add: on_header_def Let_def)
qed

lemma detector_headers_sent_prefix:
  "prefix (hresultChan s) (hresultChan (state_of (fst (detector_headers evs rs s))))"
proof (induction evs arbitrary: rs s)
  case Nil
  show ?case by simp
next
  case (Cons ev evs)
  show ?case
  proof (cases ev)
    case Done
    then show ?thesis by simp
  next
    case (Recv x)
    obtain out rs' where o: "on_header rs x s = (out, rs')" by (cases "on_header rs x s")
    from on_header_sent_prefix [of s rs x] o have p: "prefix (hresultChan s) (hresultChan (state_of out))"
      by simp
    show ?thesis
    proof (cases out)
      case (Waiting s1)
      with p have "prefix (hresultChan s) (hresultChan s1)" by simp
      also have "prefix (hresultChan s1) (hresultChan (state_of (fst (detector_headers evs rs' s1))))"
        by (rule Cons.IH)
      finally show ?thesis using Recv o Waiting by simp
    next
      case (Returned s1)
      with p Recv o show ?thesis by simp
    next
      case (Starved s1)
      with p Recv o show ?thesis by simp
    qed
  qed
qed

lemma prefix_single_take: "prefix [x] ys \<Longrightarrow> take 1 ys = [x]"
  by (auto simp: prefix_def)

section \<open>Subscribing\<close>

text \<open>
  Claim C7, as stated, fails: the eager query returns the historical matches A (block 1)
  and B (block 2); B reaches the detector as an ordinary raw item, starts a gap query
  from block 1, and when that query returns nothing B is never sent.
\<close>

theorem historical_match_lost:
  "log_stream (SubscribeFilterlogs (Inr [logA, logB]) any_logs) [] [Inr []] = [logA]"
  by (simp add: log_stream_def SubscribeFilterlogs_def subscribeFilterlog_def on_log_def
        new_log_detector_def hasSeen_def Let_def)

text \<open>
  Claim C7, amended. \<open>SubscribeFilterlogs\<close> makes one query with the criterion itself,
  and when it succeeds puts the matches on the check channel in the order returned,
  before either goroutine exists, so before any session is opened and ahead of every
  live item. What the consumer is sent is the detector's output on the matches followed
  by what its \<open>select\<close> yields afterwards: the first match is always sent first, a
  single match is sent as it is, and every later match is treated like any raw item.
  \<open>SubscribeNewHead\<close> makes no query and starts from an empty check channel: nothing is
  sent before a header is received, and the first header received is the first one sent.
\<close>

theorem eager_backfill_through_check_channel:
  "eager_calls (SubscribeFilterlogs eager q) = [q]
   \<and> checkChan (SubscribeFilterlogs (Inr logs) q) = logs
   \<and> supervisor_task (SubscribeFilterlogs (Inr logs) q) = Some new_supervisor
   \<and> opens new_supervisor = 0
   \<and> log_stream (SubscribeFilterlogs (Inr logs) q) live rs
       = resultChan (state_of (fst (detector_logs (map Recv logs @ live) rs (new_log_detector q))))
   \<and> take 1 (log_stream (SubscribeFilterlogs (Inr (x # logs)) q) live rs) = [x]
   \<and> log_stream (SubscribeFilterlogs (Inr [x]) q) [] rs = [x]
   \<and> log_stream (SubscribeFilterlogs (Inr []) q) [] rs = []
   \<and> eager_calls (SubscribeNewHead ctx_done) = []
   \<and> checkChan (SubscribeNewHead ctx_done) = []
   \<and> header_stream (SubscribeNewHead ctx_done) [] hrs = []
   \<and> take 1 (header_stream (SubscribeNewHead ctx_done) (Recv h # hlive) hrs) = [h]"
proof -
  have 1: "eager_calls (SubscribeFilterlogs eager q) = [q]"
    by (cases eager) (simp_all add: SubscribeFilterlogs_def subscribeFilterlog_def)
  have 2: "checkChan (SubscribeFilterlogs (Inr logs) q) = logs"
    "supervisor_task (SubscribeFilterlogs (Inr logs) q) = Some new_supervisor"
    "opens new_supervisor = 0"
    by (simp_all add: SubscribeFilterlogs_def subscribeFilterlog_def new_supervisor_def)
  have 3: "\<And>logs live. log_stream (SubscribeFilterlogs (Inr logs) q) live rs
       = resultChan (state_of (fst (detector_logs (map Recv logs @ live) rs (new_log_detector q))))"
    by (simp add: log_stream_def SubscribeFilterlogs_def subscribeFilterlog_def)
  let ?s1 = "(new_log_detector q)\<lparr>lastLog := Some x, resultChan := [x]\<rparr>"
  have "detector_logs (map Recv (x # logs) @ live) rs (new_log_detector q)
          = detector_logs (map Recv logs @ live) rs ?s1"
    by (simp add: on_log_def new_log_detector_def)
  moreover have "prefix (resultChan ?s1)
        (resultChan (state_of (fst (detector_logs (map Recv logs @ live) rs ?s1))))"
    by (rule detector_logs_sent_prefix)
  ultimately have "prefix [x] (log_stream (SubscribeFilterlogs (Inr (x # logs)) q) live rs)"
    by (simp add: 3)
  then have 4: "take 1 (log_stream (SubscribeFilterlogs (Inr (x # logs)) q) live rs) = [x]"
    by (rule prefix_single_take)
  have 5: "log_stream (SubscribeFilterlogs (Inr [x]) q) [] rs = [x]"
    "log_stream (SubscribeFilterlogs (Inr []) q) [] rs = []"
    by (simp_all add: 3 on_log_def new_log_detector_def)
  have 6: "eager_calls (SubscribeNewHead ctx_done) = []"
    "checkChan (SubscribeNewHead ctx_done) = []"
    "header_stream (SubscribeNewHead ctx_done) [] hrs = []"
    by (simp_all add: SubscribeNewHead_def subscribeNewHead_def header_stream_def
          new_header_detector_def)
  let ?t1 = "new_header_detector\<lparr>lastHeader := Some h, hresultChan := [h]\<rparr>"
  have "detector_headers (Recv h # hlive) hrs new_header_detector = detector_headers hlive hrs ?t1"
    by (simp add: on_header_def new_header_detector_def)
  moreover have "prefix (hresultChan ?t1)
        (hresultChan (state_of (fst (detector_headers hlive hrs ?t1))))"
    by (rule detector_headers_sent_prefix)
  ultimately have "prefix [h] (header_stream (SubscribeNewHead ctx_done) (Recv h # hlive) hrs)"
    by (simp add: SubscribeNewHead_def subscribeNewHead_def header_stream_def)
  then have 7: "take 1 (header_stream (SubscribeNewHead ctx_done) (Recv h # hlive) hrs) = [h]"
    by (rule prefix_single_take)
  from 1 2 3 [of logs live] 4 5 6 7 show ?thesis by blast
qed

text \<open>
  Claim C8. \<open>SubscribeFilterlogs\<close> returns an error exactly when its eager query fails,
  and it is that error; then neither goroutine is started and nothing is ever sent. When
  the query succeeds it returns nil with both goroutines started. After that the only
  things a consumer receives are logs: the detector returns only when its \<open>select\<close>
  takes \<open>ctx.Done()\<close> or a backfill query fails with \<open>context.Canceled\<close> or
  \<open>context.DeadlineExceeded\<close>, and the supervisor stops only on \<open>ctx.Done()\<close> or on
  such a failure to open a session.
\<close>

theorem SubscribeFilterlogs_error_iff:
  "(ret (SubscribeFilterlogs eager q) \<noteq> None) = (\<exists>e. eager = Inl e)
   \<and> ret (SubscribeFilterlogs (Inl e) q) = Some e
   \<and> detector (SubscribeFilterlogs (Inl e) q) = None
   \<and> supervisor_task (SubscribeFilterlogs (Inl e) q) = None
   \<and> log_stream (SubscribeFilterlogs (Inl e) q) live rs = []
   \<and> ret (SubscribeFilterlogs (Inr logs) q) = None
   \<and> detector (SubscribeFilterlogs (Inr logs) q) = Some (new_log_detector q)
   \<and> supervisor_task (SubscribeFilterlogs (Inr logs) q) = Some new_supervisor
   \<and> (\<forall>s'. fst (detector_logs evs rs (new_log_detector q)) = Returned s' \<longrightarrow>
         Done \<in> set evs \<or> Inl Canceled \<in> set rs \<or> Inl DeadlineExceeded \<in> set rs)
   \<and> (pc (log_supervisor sevs new_supervisor) = Stopped \<longrightarrow>
         CtxDone \<in> set sevs \<or> OpenFailed Canceled \<in> set sevs
         \<or> OpenFailed DeadlineExceeded \<in> set sevs)"
proof -
  have 1: "(ret (SubscribeFilterlogs eager q) \<noteq> None) = (\<exists>e. eager = Inl e)"
    by (cases eager) (simp_all add: SubscribeFilterlogs_def subscribeFilterlog_def)
  have 2: "ret (SubscribeFilterlogs (Inl e) q) = Some e"
    "detector (SubscribeFilterlogs (Inl e) q) = None"
    "supervisor_task (SubscribeFilterlogs (Inl e) q) = None"
    "log_stream (SubscribeFilterlogs (Inl e) q) live rs = []"
    by (simp_all add: SubscribeFilterlogs_def log_stream_def)
  have 3: "ret (SubscribeFilterlogs (Inr logs) q) = None"
    "detector (SubscribeFilterlogs (Inr logs) q) = Some (new_log_detector q)"
    "supervisor_task (SubscribeFilterlogs (Inr logs) q) = Some new_supervisor"
    by (simp_all add: SubscribeFilterlogs_def subscribeFilterlog_def)
  have 4: "\<forall>s'. fst (detector_logs evs rs (new_log_detector q)) = Returned s' \<longrightarrow>
         Done \<in> set evs \<or> Inl Canceled \<in> set rs \<or> Inl DeadlineExceeded \<in> set rs"
    using detector_logs_returned by blast
  have "pc new_supervisor \<noteq> Stopped" by (simp add: new_supervisor_def)
  from log_supervisor_stops_on_cancel [OF this]
  have 5: "pc (log_supervisor sevs new_supervisor) = Stopped \<longrightarrow>
         CtxDone \<in> set sevs \<or> OpenFailed Canceled \<in> set sevs
         \<or> OpenFailed DeadlineExceeded \<in> set sevs"
    by blast
  from 1 2 3 4 5 show ?thesis by blast
qed

theorem SubscribeFilterlogs_error_iff_witness:
  "fst (detector_logs [Recv logA, Recv logC] [Inl Canceled] (new_log_detector any_logs))
     = Returned \<lparr>lastLog = Some logA, query = \<lparr>FromBlock = Some 1, ToBlock = None, Criteria = 0\<rparr>,
                 resultChan = [logA],
                 calls = [\<lparr>FromBlock = Some 1, ToBlock = None, Criteria = 0\<rparr>], slept = 0\<rparr>
   \<and> (Done \<in> set [Recv logA, Recv logC] \<or> Inl Canceled \<in> set [Inl Canceled :: log_reply]
        \<or> Inl DeadlineExceeded \<in> set [Inl Canceled :: log_reply])
   \<and> pc (log_supervisor [Opened, CtxDone] new_supervisor) = Stopped
   \<and> (CtxDone \<in> set [Opened, CtxDone] \<or> OpenFailed Canceled \<in> set [Opened, CtxDone]
        \<or> OpenFailed DeadlineExceeded \<in> set [Opened, CtxDone])"
proof -
  have h1: "fst (detector_logs [Recv logA, Recv logC] [Inl Canceled] (new_log_detector any_logs))
     = Returned \<lparr>lastLog = Some logA, query = \<lparr>FromBlock = Some 1, ToBlock = None, Criteria = 0\<rparr>,
                 resultChan = [logA],
                 calls = [\<lparr>FromBlock = Some 1, ToBlock = None, Criteria = 0\<rparr>], slept = 0\<rparr>"
    by (simp add: on_log_def new_log_detector_def hasSeen_def Let_def)
  have h2: "pc (log_supervisor [Opened, CtxDone] new_supervisor) = Stopped"
    by (simp add: log_supervisor_def log_supervisor_step_def new_supervisor_def)
  note t = SubscribeFilterlogs_error_iff [where evs = "[Recv logA, Recv logC]"
      and rs = "[Inl Canceled]" and q = any_logs and sevs = "[Opened, CtxDone]"]
  from t h1 have a: "Done \<in> set [Recv logA, Recv logC] \<or> Inl Canceled \<in> set [Inl Canceled :: log_reply]
        \<or> Inl DeadlineExceeded \<in> set [Inl Canceled :: log_reply]"
    by blast
  from t h2 have b: "CtxDone \<in> set [Opened, CtxDone] \<or> OpenFailed Canceled \<in> set [Opened, CtxDone]
        \<or> OpenFailed DeadlineExceeded \<in> set [Opened, CtxDone]"
    by blast
  from h1 a h2 b show ?thesis by blast
qed

section \<open>Supervisors and cancellation\<close>

lemma header_supervisor_ignores_done:
  "header_supervisor (replicate n CtxDone) (s\<lparr>pc := Active\<rparr>) = s\<lparr>pc := Active\<rparr>"
  by (induction n) (simp_all add: header_supervisor_def header_supervisor_step_def)

lemma log_supervisor_stopped: "pc s = Stopped \<Longrightarrow> log_supervisor evs s = s"
  by (induction evs arbitrary: s) (simp_all add: log_supervisor_def log_supervisor_step_def)

text \<open>
  Claim C3 evaluated on the code. With a session open, the header supervisor stays in
  its \<open>select\<close> however often the cancellation signal is offered, because that
  \<open>select\<close> has no \<open>ctx.Done()\<close> case; the log supervisor, in the same situation,
  returns at the first one and stays returned.
\<close>

theorem header_supervisor_misses_cancellation:
  "header_supervisor (Opened # CtxDone # replicate n CtxDone) new_supervisor
     = \<lparr>pc = Active, opens = 1, unsubscribed = 0, sslept = 0\<rparr>
   \<and> log_supervisor (Opened # CtxDone # evs) new_supervisor
     = \<lparr>pc = Stopped, opens = 1, unsubscribed = 0, sslept = 0\<rparr>"
proof -
  have "header_supervisor (Opened # CtxDone # replicate n CtxDone) new_supervisor
          = header_supervisor (replicate n CtxDone) (new_supervisor\<lparr>opens := 1\<rparr>\<lparr>pc := Active\<rparr>)"
    by (simp add: header_supervisor_def header_supervisor_step_def new_supervisor_def)
  also have "\<dots> = new_supervisor\<lparr>opens := 1\<rparr>\<lparr>pc := Active\<rparr>"
    by (rule header_supervisor_ignores_done)
  finally have 1: "header_supervisor (Opened # CtxDone # replicate n CtxDone) new_supervisor
     = \<lparr>pc = Active, opens = 1, unsubscribed = 0, sslept = 0\<rparr>"
    by (simp add: new_supervisor_def)
  have "log_supervisor (Opened # CtxDone # evs) new_supervisor
          = log_supervisor evs \<lparr>pc = Stopped, opens = 1, unsubscribed = 0, sslept = 0\<rparr>"
    by (simp add: log_supervisor_def log_supervisor_step_def new_supervisor_def)
  also have "\<dots> = \<lparr>pc = Stopped, opens = 1, unsubscribed = 0, sslept = 0\<rparr>"
    by (rule log_supervisor_stopped) simp
  finally show ?thesis using 1 by simp
qed

text \<open>
  Claim C10, as stated, fails: when opening the head subscription fails with
  \<open>context.Canceled\<close>, \<open>SubscribeNewHead\<close> has returned nil, and the supervisor
  returns without sleeping and without a second attempt.
\<close>

theorem open_failure_by_cancellation_not_retried:
  "ret (SubscribeNewHead True) = None
   \<and> header_supervisor [OpenFailed Canceled] new_supervisor
     = \<lparr>pc = Stopped, opens = 1, unsubscribed = 0, sslept = 0\<rparr>"
  by (simp add: SubscribeNewHead_def subscribeNewHead_def header_supervisor_def
        header_supervisor_step_def new_supervisor_def)

lemma header_supervisor_open_retry:
  assumes "pc s = Connecting" and "\<forall>e \<in> set es. e \<noteq> Canceled \<and> e \<noteq> DeadlineExceeded"
  shows "header_supervisor (map OpenFailed es) s
         = s\<lparr>opens := opens s + length es, sslept := sslept s + length es * reconnectInterval\<rparr>"
  using assms
proof (induction es arbitrary: s)
  case Nil
  show ?case by (simp add: header_supervisor_def)
next
  case (Cons e es)
  let ?s2 = "s\<lparr>opens := opens s + 1, sslept := sslept s + reconnectInterval\<rparr>"
  have "header_supervisor (map OpenFailed (e # es)) s = header_supervisor (map OpenFailed es) ?s2"
    using Cons.prems by (simp add: header_supervisor_def header_supervisor_step_def)
  also have "\<dots> = ?s2\<lparr>opens := opens ?s2 + length es,
                          sslept := sslept ?s2 + length es * reconnectInterval\<rparr>"
    using Cons.prems by (intro Cons.IH) simp_all
  finally show ?case by (simp add: algebra_simps)
qed

text \<open>
  Claim C10, amended. \<open>SubscribeNewHead\<close> returns nil whatever the context, leaving the
  supervisor about to open the session. Any number of failures to open other than
  \<open>context.Canceled\<close> and \<open>context.DeadlineExceeded\<close> are each followed by a sleep of
  \<open>reconnectInterval\<close> and another attempt; a success after them makes the session
  active, and a failure with one of those two errors makes the supervisor return. None
  of them changes what the subscribe call returned.
\<close>

theorem SubscribeNewHead_never_fails:
  assumes "\<forall>e \<in> set es. e \<noteq> Canceled \<and> e \<noteq> DeadlineExceeded"
    and "c = Canceled \<or> c = DeadlineExceeded"
  shows "ret (SubscribeNewHead ctx_done) = None
       \<and> supervisor_task (SubscribeNewHead ctx_done) = Some new_supervisor
       \<and> header_supervisor (map OpenFailed es) new_supervisor
           = \<lparr>pc = Connecting, opens = length es, unsubscribed = 0,
              sslept = length es * reconnectInterval\<rparr>
       \<and> header_supervisor (map OpenFailed es @ [Opened]) new_supervisor
           = \<lparr>pc = Active, opens = length es + 1, unsubscribed = 0,
              sslept = length es * reconnectInterval\<rparr>
       \<and> header_supervisor (map OpenFailed es @ [OpenFailed c]) new_supervisor
           = \<lparr>pc = Stopped, opens = length es + 1, unsubscribed = 0,
              sslept = length es * reconnectInterval\<rparr>"
proof -
  have c: "pc new_supervisor = Connecting" by (simp add: new_supervisor_def)
  have r: "header_supervisor (map OpenFailed es) new_supervisor
           = \<lparr>pc = Connecting, opens = length es, unsubscribed = 0,
              sslept = length es * reconnectInterval\<rparr>"
    using header_supervisor_open_retry [OF c assms(1)] by (simp add: new_supervisor_def)
  have app: "\<And>evs ev. header_supervisor (evs @ [ev]) new_supervisor
               = header_supervisor_step (header_supervisor evs new_supervisor) ev"
    by (simp add: header_supervisor_def)
  have 4: "header_supervisor (map OpenFailed es @ [Opened]) new_supervisor
           = \<lparr>pc = Active, opens = length es + 1, unsubscribed = 0,
              sslept = length es * reconnectInterval\<rparr>"
    by (simp add: app r header_supervisor_step_def)
  have 5: "header_supervisor (map OpenFailed es @ [OpenFailed c]) new_supervisor
           = \<lparr>pc = Stopped, opens = length es + 1, unsubscribed = 0,
              sslept = length es * reconnectInterval\<rparr>"
    using assms(2) by (auto simp add: app r header_supervisor_step_def)
  have "ret (SubscribeNewHead ctx_done) = None"
    "supervisor_task (SubscribeNewHead ctx_done) = Some new_supervisor"
    by (simp_all add: SubscribeNewHead_def subscribeNewHead_def)
  with r 4 5 show ?thesis by blast
qed

theorem SubscribeNewHead_never_fails_witness:
  "header_supervisor (map OpenFailed [NotFound, OtherErr 3] @ [Opened]) new_supervisor
     = \<lparr>pc = Active, opens = 3, unsubscribed = 0, sslept = 4\<rparr>
   \<and> header_supervisor (map OpenFailed [NotFound, OtherErr 3] @ [OpenFailed DeadlineExceeded]) new_supervisor
     = \<lparr>pc = Stopped, opens = 3, unsubscribed = 0, sslept = 4\<rparr>"
proof -
  have h1: "\<forall>e \<in> set [NotFound, OtherErr 3]. e \<noteq> Canceled \<and> e \<noteq> DeadlineExceeded" by simp
  have h2: "DeadlineExceeded = Canceled \<or> DeadlineExceeded = DeadlineExceeded" by simp
  note t = SubscribeNewHead_never_fails [OF h1 h2, of True]
  from t have a: "header_supervisor (map OpenFailed [NotFound, OtherErr 3] @ [Opened]) new_supervisor
           = \<lparr>pc = Active, opens = length [NotFound, OtherErr 3] + 1, unsubscribed = 0,
              sslept = length [NotFound, OtherErr 3] * reconnectInterval\<rparr>"
    by blast
  from t have b: "header_supervisor (map OpenFailed [NotFound, OtherErr 3] @ [OpenFailed DeadlineExceeded]) new_supervisor
           = \<lparr>pc = Stopped, opens = length [NotFound, OtherErr 3] + 1, unsubscribed = 0,
              sslept = length [NotFound, OtherErr 3] * reconnectInterval\<rparr>"
    by blast
  show ?thesis unfolding a b by (simp add: reconnectInterval_def)
qed

end
